theory Spec2Isabelle
  imports Main "HOL-Library.Extended_Nat"
begin

section \<open>Data model\<close>

text \<open>
  A peg is a JavaScript number; the type \<open>Peg = 1 | 2 | 3 | 4 | 5 | 6\<close> of the source is
  erased at run time and the enumeration loops do arithmetic on pegs, so a peg is a natural
  number here and the range \<open>1..6\<close> is the predicate \<open>valid_peg\<close>. A code is the fixed
  4-tuple \<open>[Peg, Peg, Peg, Peg]\<close>. The fields of a feedback are numbers that the caller may
  supply (also negative ones), so they are integers.
\<close>

type_synonym Peg = nat

datatype Code = Code Peg Peg Peg Peg

record Feedback =
  black :: int
  white :: int

record Step =
  guess :: Code
  feedback :: Feedback

definition valid_peg :: "Peg \<Rightarrow> bool" where
  "valid_peg p \<longleftrightarrow> 1 \<le> p \<and> p \<le> 6"

fun valid_code :: "Code \<Rightarrow> bool" where
  "valid_code (Code a b c d) \<longleftrightarrow> valid_peg a \<and> valid_peg b \<and> valid_peg c \<and> valid_peg d"

fun pegs :: "Code \<Rightarrow> Peg list" where
  "pegs (Code a b c d) = [a, b, c, d]"

text \<open>\<open>code[i]\<close>, used by the source at the indices 0 to 3 only.\<close>

definition code_nth :: "Code \<Rightarrow> nat \<Rightarrow> Peg" where
  "code_nth c i = pegs c ! i"

section \<open>JavaScript \<open>Map\<close>: an association list in insertion order\<close>

text \<open>
  \<open>m.set(k, v)\<close> overwrites the value of a key that is present, keeping its place, and
  appends a new key at the end; iteration runs in that order. \<open>m.get(k) ?? d\<close> is
  \<open>get_or m k d\<close>.
\<close>

fun map_set :: "('k \<times> 'v) list \<Rightarrow> 'k \<Rightarrow> 'v \<Rightarrow> ('k \<times> 'v) list" where
  "map_set [] k v = [(k, v)]"
| "map_set ((k', v') # m) k v = (if k' = k then (k, v) # m else (k', v') # map_set m k v)"

definition get_or :: "('k \<times> 'v) list \<Rightarrow> 'k \<Rightarrow> 'v \<Rightarrow> 'v" where
  "get_or m k d = (case map_of m k of None \<Rightarrow> d | Some v \<Rightarrow> v)"

text \<open>\<open>m.set(k, (m.get(k) ?? 0) + 1)\<close>\<close>

definition bump :: "('k \<times> int) list \<Rightarrow> 'k \<Rightarrow> ('k \<times> int) list" where
  "bump m k = map_set m k (get_or m k 0 + 1)"

section \<open>Feedback engine\<close>

text \<open>
  The state of the first loop of \<open>feedbackFor\<close> is \<open>(black, secretCounts, guessCounts)\<close>;
  \<open>count_step\<close> is its body at index \<open>i\<close>.
\<close>

definition count_step ::
  "Code \<Rightarrow> Code \<Rightarrow> nat \<Rightarrow> int \<times> (Peg \<times> int) list \<times> (Peg \<times> int) list
     \<Rightarrow> int \<times> (Peg \<times> int) list \<times> (Peg \<times> int) list" where
  "count_step secret g i st =
     (case st of (b, secretCounts, guessCounts) \<Rightarrow>
        if code_nth secret i = code_nth g i then (b + 1, secretCounts, guessCounts)
        else (b, bump secretCounts (code_nth secret i), bump guessCounts (code_nth g i)))"

text \<open>The body of the second loop, over the entries of \<open>guessCounts\<close>.\<close>

definition white_step :: "(Peg \<times> int) list \<Rightarrow> Peg \<times> int \<Rightarrow> int \<Rightarrow> int" where
  "white_step secretCounts e w = (case e of (peg, gCount) \<Rightarrow> w + min (get_or secretCounts peg 0) gCount)"

definition feedbackFor :: "Code \<Rightarrow> Code \<Rightarrow> Feedback" where
  "feedbackFor secret g =
     (case fold (count_step secret g) [0..<4] (0, [], []) of
        (b, secretCounts, guessCounts) \<Rightarrow>
          \<lparr>black = b, white = fold (white_step secretCounts) guessCounts 0\<rparr>)"

definition isValidFeedback :: "Feedback \<Rightarrow> bool" where
  "isValidFeedback fb =
     (if black fb < 0 \<or> white fb < 0 then False
      else if black fb > 4 \<or> white fb > 4 then False
      else if black fb + white fb > 4 then False
      else True)"

section \<open>Code space enumerator\<close>

text \<open>
  The four nested \<open>for\<close> loops of \<open>generateAllCodes\<close>, innermost first. Each takes the
  loop variables of the enclosing loops, its own loop variable and the array \<open>out\<close>, and
  returns \<open>out\<close> as the loop leaves it.
\<close>

function loop_d :: "Peg \<Rightarrow> Peg \<Rightarrow> Peg \<Rightarrow> Peg \<Rightarrow> Code list \<Rightarrow> Code list" where
  "loop_d a b c d out = (if d \<le> 6 then loop_d a b c (d + 1) (out @ [Code a b c d]) else out)"
  by pat_completeness auto
termination
  by (relation "measure (\<lambda>(a, b, c, d, out). 7 - d)") auto

function loop_c :: "Peg \<Rightarrow> Peg \<Rightarrow> Peg \<Rightarrow> Code list \<Rightarrow> Code list" where
  "loop_c a b c out = (if c \<le> 6 then loop_c a b (c + 1) (loop_d a b c 1 out) else out)"
  by pat_completeness auto
termination
  by (relation "measure (\<lambda>(a, b, c, out). 7 - c)") auto

function loop_b :: "Peg \<Rightarrow> Peg \<Rightarrow> Code list \<Rightarrow> Code list" where
  "loop_b a b out = (if b \<le> 6 then loop_b a (b + 1) (loop_c a b 1 out) else out)"
  by pat_completeness auto
termination
  by (relation "measure (\<lambda>(a, b, out). 7 - b)") auto

function loop_a :: "Peg \<Rightarrow> Code list \<Rightarrow> Code list" where
  "loop_a a out = (if a \<le> 6 then loop_a (a + 1) (loop_b a 1 out) else out)"
  by pat_completeness auto
termination
  by (relation "measure (\<lambda>(a, out). 7 - a)") auto

declare loop_d.simps [simp del] loop_c.simps [simp del] loop_b.simps [simp del]
  loop_a.simps [simp del]

definition generateAllCodes :: "Code list" where
  "generateAllCodes = loop_a 1 []"

definition ALL_CODES :: "Code list" where
  "ALL_CODES = generateAllCodes"

section \<open>Strings\<close>

text \<open>
  A string is a list of 8-bit characters; the code units of a JavaScript string above 255
  are outside the model. \<open>string_of_nat\<close> is the decimal form that JavaScript gives a
  non-negative integer (below \<open>10^21\<close>), \<open>string_of_int\<close> adds the sign. \<open>str_less\<close> is
  \<open>s < t\<close> on strings: the comparison of the code units from the left, a proper prefix
  being smaller.
\<close>

definition digit_char :: "nat \<Rightarrow> char" where
  "digit_char n = char_of (48 + n)"

function string_of_nat :: "nat \<Rightarrow> string" where
  "string_of_nat n =
     (if n < 10 then [digit_char n] else string_of_nat (n div 10) @ [digit_char (n mod 10)])"
  by pat_completeness auto
termination
  by (relation "measure id") auto

declare string_of_nat.simps [simp del]

definition string_of_int :: "int \<Rightarrow> string" where
  "string_of_int i = (if i < 0 then CHR ''-'' # string_of_nat (nat (- i)) else string_of_nat (nat i))"

fun str_less :: "string \<Rightarrow> string \<Rightarrow> bool" where
  "str_less [] [] = False"
| "str_less [] (y # ys) = True"
| "str_less (x # xs) [] = False"
| "str_less (x # xs) (y # ys) =
     (if (of_char x :: nat) < of_char y then True
      else if (of_char x :: nat) = of_char y then str_less xs ys
      else False)"

text \<open>\<open>code.join("")\<close>\<close>

definition codeToString :: "Code \<Rightarrow> string" where
  "codeToString c = concat (map string_of_nat (pegs c))"

text \<open>
  \<open>s.trim()\<close> removes the white space and line terminators at both ends; among the 8-bit
  characters these are tab, line feed, vertical tab, form feed, carriage return, space and
  the no-break space.
\<close>

definition is_space :: "char \<Rightarrow> bool" where
  "is_space c \<longleftrightarrow> (of_char c :: nat) \<in> {9, 10, 11, 12, 13, 32, 160}"

definition trim :: "string \<Rightarrow> string" where
  "trim s = rev (dropWhile is_space (rev (dropWhile is_space s)))"

text \<open>
  The regular expression \<open>/^[1-6]{4}$/\<close>: \<open>match_class n t\<close> consumes \<open>n\<close> characters of
  the class \<open>[1-6]\<close> from the front of \<open>t\<close> and returns the rest, and the test succeeds
  when four are consumed and the rest is empty (without the \<open>m\<close> flag, \<open>$\<close> is the end
  of the input).
\<close>

definition in_class :: "char \<Rightarrow> bool" where
  "in_class c \<longleftrightarrow> (of_char (CHR ''1'') :: nat) \<le> of_char c \<and> (of_char c :: nat) \<le> of_char (CHR ''6'')"

fun match_class :: "nat \<Rightarrow> string \<Rightarrow> string option" where
  "match_class 0 t = Some t"
| "match_class (Suc n) [] = None"
| "match_class (Suc n) (c # t) = (if in_class c then match_class n t else None)"

definition regex_test :: "string \<Rightarrow> bool" where
  "regex_test t \<longleftrightarrow> match_class 4 t = Some []"

text \<open>\<open>Number(x)\<close> on a one-character string holding a decimal digit, the only strings that
  reach it behind the regular expression.\<close>

definition Number :: "char \<Rightarrow> nat" where
  "Number x = of_char x - 48"

definition parseCodeString :: "string \<Rightarrow> Code option" where
  "parseCodeString s =
     (let t = trim s in
      if \<not> regex_test t then None
      else (let nums = map Number t in Some (Code (nums ! 0) (nums ! 1) (nums ! 2) (nums ! 3))))"

section \<open>Constraint filter\<close>

text \<open>\<open>consistent step\<close> is the callback of the \<open>filter\<close> call in \<open>filterRemaining\<close>.\<close>

definition consistent :: "Step \<Rightarrow> Code \<Rightarrow> bool" where
  "consistent step secret =
     (let fb = feedbackFor secret (guess step)
      in black fb = black (feedback step) \<and> white fb = white (feedback step))"

definition filterRemaining :: "Step list \<Rightarrow> Code list \<Rightarrow> Code list" where
  "filterRemaining steps candidates =
     fold (\<lambda>step remaining. filter (consistent step) remaining) steps candidates"

section \<open>Guess recommender\<close>

text \<open>\<open>bestScore\<close> is a number that starts as \<open>Infinity\<close>.\<close>

datatype score = Finite int | Infinity

fun score_lt :: "int \<Rightarrow> score \<Rightarrow> bool" where
  "score_lt w (Finite b) = (w < b)"
| "score_lt w Infinity = True"

fun score_ge :: "int \<Rightarrow> score \<Rightarrow> bool" where
  "score_ge w (Finite b) = (w \<ge> b)"
| "score_ge w Infinity = False"

fun score_eq :: "int \<Rightarrow> score \<Rightarrow> bool" where
  "score_eq w (Finite b) = (w = b)"
| "score_eq w Infinity = False"

definition feedbackKey :: "Feedback \<Rightarrow> string" where
  "feedbackKey fb = string_of_int (black fb) @ string_of_int (white fb)"

text \<open>The map \<open>partitions\<close> after the loop over \<open>remaining\<close>.\<close>

definition partitions_of :: "Code list \<Rightarrow> Code \<Rightarrow> (string \<times> int) list" where
  "partitions_of remaining g =
     fold (\<lambda>secret partitions. bump partitions (feedbackKey (feedbackFor secret g))) remaining []"

text \<open>
  The loop over \<open>partitions.values()\<close>, with its \<open>break\<close>: \<open>worst_scan bestScore vs worst\<close>
  is the value of \<open>worst\<close> when the loop is left, \<open>vs\<close> being the values still to visit.
\<close>

fun worst_scan :: "score \<Rightarrow> int list \<Rightarrow> int \<Rightarrow> int" where
  "worst_scan best [] worst = worst"
| "worst_scan best (v # vs) worst =
     (let worst' = (if v > worst then v else worst)
      in if score_ge worst' best then worst' else worst_scan best vs worst')"

record Best =
  bestGuess :: Code
  bestScore :: score
  bestIsRemaining :: bool

text \<open>The body of the loop over \<open>allGuesses\<close>.\<close>

definition consider_guess :: "Code list \<Rightarrow> Code \<Rightarrow> Best \<Rightarrow> Best" where
  "consider_guess remaining g st =
     (let partitions = partitions_of remaining g;
          worst = worst_scan (bestScore st) (map snd partitions) 0;
          isInRemaining = (codeToString g \<in> set (map codeToString remaining))
      in if score_lt worst (bestScore st)
         then \<lparr>bestGuess = g, bestScore = Finite worst, bestIsRemaining = isInRemaining\<rparr>
         else if score_eq worst (bestScore st)
         then (if isInRemaining \<and> \<not> bestIsRemaining st
               then st\<lparr>bestGuess := g, bestIsRemaining := True\<rparr>
               else if isInRemaining = bestIsRemaining st
               then (if str_less (codeToString g) (codeToString (bestGuess st))
                     then st\<lparr>bestGuess := g\<rparr> else st)
               else st)
         else st)"

definition firstGuess :: "Code" where
  "firstGuess = Code 1 1 2 2"

definition recommendNextGuess :: "Code list \<Rightarrow> Code list \<Rightarrow> Code" where
  "recommendNextGuess remaining allGuesses =
     (if length remaining = 0 then Code 1 1 2 2
      else if length remaining = 1 then remaining ! 0
      else bestGuess (fold (consider_guess remaining) allGuesses
             \<lparr>bestGuess = Code 1 1 2 2, bestScore = Infinity, bestIsRemaining = False\<rparr>))"

section \<open>Notions used in the proofs\<close>

text \<open>
  \<open>tally xs m\<close> is the map \<open>m\<close> after counting every element of \<open>xs\<close> into it.
  \<open>hits\<close> and \<open>misses\<close> are the positions where two codes agree and differ, and
  \<open>common xs ys\<close> is the size of the intersection of \<open>xs\<close> and \<open>ys\<close> as multisets.
\<close>

definition tally :: "'k list \<Rightarrow> ('k \<times> int) list \<Rightarrow> ('k \<times> int) list" where
  "tally xs m = fold (\<lambda>x m. bump m x) xs m"

definition hits :: "Code \<Rightarrow> Code \<Rightarrow> nat list" where
  "hits s g = filter (\<lambda>i. code_nth s i = code_nth g i) [0..<4]"

definition misses :: "Code \<Rightarrow> Code \<Rightarrow> nat list" where
  "misses s g = filter (\<lambda>i. code_nth s i \<noteq> code_nth g i) [0..<4]"

definition common :: "Peg list \<Rightarrow> Peg list \<Rightarrow> int" where
  "common xs ys = (\<Sum>p\<in>set xs \<union> set ys. min (int (count_list xs p)) (int (count_list ys p)))"

text \<open>
  \<open>code_less\<close> is the lexicographic order of codes by peg value, the first position being
  the most significant. \<open>codes_c a b c\<close>, \<open>codes_b a b\<close> and \<open>codes_a a\<close> are the codes
  that one pass of the loop over \<open>d\<close>, over \<open>c\<close> and over \<open>b\<close> appends.
\<close>

fun code_less :: "Code \<Rightarrow> Code \<Rightarrow> bool" where
  "code_less (Code a b c d) (Code e f g h) \<longleftrightarrow>
     a < e \<or> (a = e \<and> (b < f \<or> (b = f \<and> (c < g \<or> (c = g \<and> d < h)))))"

definition codes_c :: "Peg \<Rightarrow> Peg \<Rightarrow> Peg \<Rightarrow> Code list" where
  "codes_c a b c = map (Code a b c) [1..<7]"

definition codes_b :: "Peg \<Rightarrow> Peg \<Rightarrow> Code list" where
  "codes_b a b = concat (map (codes_c a b) [1..<7])"

definition codes_a :: "Peg \<Rightarrow> Code list" where
  "codes_a a = concat (map (codes_b a) [1..<7])"

text \<open>
  \<open>scored secret guesses\<close> is the history of a game played against \<open>secret\<close>: every
  guess with the feedback that \<open>feedbackFor\<close> gives it. \<open>step_00\<close> is the step of the
  documented first guess answered with no pin at all.
\<close>

definition scored :: "Code \<Rightarrow> Code list \<Rightarrow> Step list" where
  "scored secret guesses = map (\<lambda>g. \<lparr>guess = g, feedback = feedbackFor secret g\<rparr>) guesses"

definition step_00 :: Step where
  "step_00 = \<lparr>guess = Code 1 1 2 2, feedback = \<lparr>black = 0, white = 0\<rparr>\<rparr>"

text \<open>The characters that the class \<open>[1-6]\<close> of the regular expression accepts.\<close>

definition digits_1_6 :: "char set" where
  "digits_1_6 = {CHR ''1'', CHR ''2'', CHR ''3'', CHR ''4'', CHR ''5'', CHR ''6''}"

text \<open>
  The recommender as the specification words it. \<open>group_size remaining g fb\<close> is the
  number of remaining codes that score \<open>fb\<close> against the guess \<open>g\<close>, and
  \<open>worst_spec remaining g\<close> is the size of the largest such group.
\<close>

definition group_size :: "Code list \<Rightarrow> Code \<Rightarrow> Feedback \<Rightarrow> int" where
  "group_size remaining g fb = int (length (filter (\<lambda>code. feedbackFor code g = fb) remaining))"

definition worst_spec :: "Code list \<Rightarrow> Code \<Rightarrow> int" where
  "worst_spec remaining g =
     fold max (map (\<lambda>code. group_size remaining g (feedbackFor code g)) remaining) 0"

text \<open>
  The unpruned evaluation: the body of the loop over \<open>allGuesses\<close> with the \<open>break\<close>
  taken out of the scan of the partition sizes, so that \<open>worst\<close> is the largest of them,
  and the recommender built on it.
\<close>

definition consider_unpruned :: "Code list \<Rightarrow> Code \<Rightarrow> Best \<Rightarrow> Best" where
  "consider_unpruned remaining g st =
     (let partitions = partitions_of remaining g;
          worst = fold max (map snd partitions) 0;
          isInRemaining = (codeToString g \<in> set (map codeToString remaining))
      in if score_lt worst (bestScore st)
         then \<lparr>bestGuess = g, bestScore = Finite worst, bestIsRemaining = isInRemaining\<rparr>
         else if score_eq worst (bestScore st)
         then (if isInRemaining \<and> \<not> bestIsRemaining st
               then st\<lparr>bestGuess := g, bestIsRemaining := True\<rparr>
               else if isInRemaining = bestIsRemaining st
               then (if str_less (codeToString g) (codeToString (bestGuess st))
                     then st\<lparr>bestGuess := g\<rparr> else st)
               else st)
         else st)"

definition recommend_unpruned :: "Code list \<Rightarrow> Code list \<Rightarrow> Code" where
  "recommend_unpruned remaining allGuesses =
     (if length remaining = 0 then Code 1 1 2 2
      else if length remaining = 1 then remaining ! 0
      else bestGuess (fold (consider_unpruned remaining) allGuesses
             \<lparr>bestGuess = Code 1 1 2 2, bestScore = Infinity, bestIsRemaining = False\<rparr>))"

text \<open>
  The four codes that remain after the first guess 1122 has been answered with two black
  and two white pins.
\<close>

definition remaining_22 :: "Code list" where
  "remaining_22 = [Code 1 2 1 2, Code 1 2 2 1, Code 2 1 1 2, Code 2 1 2 1]"

text \<open>
  The step that leaves them: the first guess 1122 answered with two black and two white
  pins.
\<close>

definition step_22 :: Step where
  "step_22 = \<lparr>guess = Code 1 1 2 2, feedback = \<lparr>black = 2, white = 2\<rparr>\<rparr>"

text \<open>
  \<open>keys_of remaining g\<close> lists the feedback keys of the remaining codes against \<open>g\<close>, in
  the order in which the loop counts them into \<open>partitions\<close>, and \<open>in_remaining\<close> is the
  membership test on \<open>remainingSet\<close>.
\<close>

definition keys_of :: "Code list \<Rightarrow> Code \<Rightarrow> string list" where
  "keys_of remaining g = map (\<lambda>secret. feedbackKey (feedbackFor secret g)) remaining"

definition in_remaining :: "Code list \<Rightarrow> Code \<Rightarrow> bool" where
  "in_remaining remaining g \<longleftrightarrow> codeToString g \<in> set (map codeToString remaining)"

text \<open>
  Three states of the scan over \<open>allGuesses\<close>: the initial one, the one that the guess
  1213 leaves, and the one that the guess 2121 leaves.
\<close>

definition st_init :: Best where
  "st_init = \<lparr>bestGuess = Code 1 1 2 2, bestScore = Infinity, bestIsRemaining = False\<rparr>"

definition st_1213 :: Best where
  "st_1213 = \<lparr>bestGuess = Code 1 2 1 3, bestScore = Finite 1, bestIsRemaining = False\<rparr>"

definition st_2121 :: Best where
  "st_2121 = \<lparr>bestGuess = Code 2 1 2 1, bestScore = Finite 1, bestIsRemaining = True\<rparr>"

section \<open>The feedback engine: counting hits and common pegs\<close>

lemma map_of_map_set: "map_of (map_set m k v) = (map_of m)(k \<mapsto> v)"
  by (induction m) auto

lemma keys_map_set:
  "map fst (map_set m k v) = (if k \<in> fst ` set m then map fst m else map fst m @ [k])"
proof (induction m)
  case Nil
  show ?case by simp
next
  case (Cons e m)
  obtain k' v' where e: "e = (k', v')" by (cases e)
  show ?case using Cons by (cases "k' = k") (simp_all add: e)
qed

lemma get_or_bump: "get_or (bump m k) k' 0 = get_or m k' 0 + (if k' = k then 1 else 0)"
  by (simp add: get_or_def bump_def map_of_map_set)

lemma keys_bump_distinct: "distinct (map fst m) \<Longrightarrow> distinct (map fst (bump m k))"
  by (simp add: bump_def keys_map_set)

lemma keys_bump_set: "fst ` set (bump m k) = insert k (fst ` set m)"
proof -
  have "set (map fst (bump m k)) = insert k (set (map fst m))"
    unfolding bump_def keys_map_set by auto
  then show ?thesis by simp
qed

lemma get_or_tally: "get_or (tally xs m) k 0 = get_or m k 0 + int (count_list xs k)"
  unfolding tally_def by (induction xs arbitrary: m) (simp_all add: get_or_bump)

lemma tally_distinct: "distinct (map fst m) \<Longrightarrow> distinct (map fst (tally xs m))"
  unfolding tally_def by (induction xs arbitrary: m) (simp_all add: keys_bump_distinct)

lemma tally_keys: "fst ` set (tally xs m) = fst ` set m \<union> set xs"
  unfolding tally_def by (induction xs arbitrary: m) (simp_all add: keys_bump_set)

lemma fold_count_step:
  "fold (count_step s g) js (b, sc, gc) =
     (b + int (length (filter (\<lambda>i. code_nth s i = code_nth g i) js)),
      tally (map (code_nth s) (filter (\<lambda>i. code_nth s i \<noteq> code_nth g i) js)) sc,
      tally (map (code_nth g) (filter (\<lambda>i. code_nth s i \<noteq> code_nth g i) js)) gc)"
  by (induction js arbitrary: b sc gc) (simp_all add: count_step_def tally_def)

lemma fold_white_step:
  "fold (white_step sc) gc w = w + sum_list (map (\<lambda>e. min (get_or sc (fst e) 0) (snd e)) gc)"
  by (induction gc arbitrary: w) (simp_all add: white_step_def split: prod.splits)

lemma get_or_entry:
  "distinct (map fst m) \<Longrightarrow> (k, v) \<in> set m \<Longrightarrow> get_or m k d = v"
  by (simp add: get_or_def)

lemma white_sum:
  assumes "distinct (map fst gc)"
  shows "sum_list (map (\<lambda>e. min (get_or sc (fst e) 0) (snd e)) gc) =
         (\<Sum>p\<in>fst ` set gc. min (get_or sc p 0) (get_or gc p 0))"
proof -
  have "map (\<lambda>e. min (get_or sc (fst e) 0) (snd e)) gc =
        map (\<lambda>p. min (get_or sc p 0) (get_or gc p 0)) (map fst gc)"
    using assms by (auto simp: get_or_entry)
  then show ?thesis
    using assms by (simp only: sum_list_distinct_conv_sum_set list.set_map)
qed


lemma get_or_Nil: "get_or [] k d = d"
  by (simp add: get_or_def)

lemma feedbackFor_black: "black (feedbackFor s g) = int (length (hits s g))"
  by (simp add: feedbackFor_def fold_count_step hits_def)

lemma feedbackFor_white:
  "white (feedbackFor s g) = common (map (code_nth s) (misses s g)) (map (code_nth g) (misses s g))"
proof -
  define ss where "ss = map (code_nth s) (misses s g)"
  define gs where "gs = map (code_nth g) (misses s g)"
  have "white (feedbackFor s g) = fold (white_step (tally ss [])) (tally gs []) 0"
    by (simp add: feedbackFor_def fold_count_step ss_def gs_def misses_def)
  also have "\<dots> = (\<Sum>p\<in>fst ` set (tally gs []). min (get_or (tally ss []) p 0) (get_or (tally gs []) p 0))"
    by (simp add: fold_white_step white_sum tally_distinct)
  also have "\<dots> = (\<Sum>p\<in>set gs. min (int (count_list ss p)) (int (count_list gs p)))"
    by (simp add: tally_keys get_or_tally get_or_Nil)
  also have "\<dots> = common ss gs"
    unfolding common_def
    by (rule sum.mono_neutral_left) (auto simp: count_list_0_iff)
  finally show ?thesis by (simp add: ss_def gs_def)
qed

lemma common_commute: "common xs ys = common ys xs"
  by (simp add: common_def Un_commute min.commute)

lemma misses_commute: "misses s g = misses g s"
  unfolding misses_def by (rule filter_cong) auto

lemma hits_commute: "hits s g = hits g s"
  unfolding hits_def by (rule filter_cong) auto

lemma common_le: "common xs ys \<le> int (length ys)"
proof -
  have "common xs ys = (\<Sum>p\<in>set ys. min (int (count_list xs p)) (int (count_list ys p)))"
    unfolding common_def
    by (rule sum.mono_neutral_right) (auto simp: count_list_0_iff)
  also have "\<dots> \<le> (\<Sum>p\<in>set ys. int (count_list ys p))"
    by (rule sum_mono) simp
  also have "\<dots> = int (length ys)"
    by (simp add: sum_count_set flip: of_nat_sum)
  finally show ?thesis .
qed

lemma common_nonneg: "0 \<le> common xs ys"
  unfolding common_def by (rule sum_nonneg) simp

lemma hits_misses: "length (hits s g) + length (misses s g) = 4"
  unfolding hits_def misses_def by (simp add: sum_length_filter_compl)

lemma hits_all: "length (hits s g) = 4 \<longleftrightarrow> s = g"
proof
  assume "length (hits s g) = 4"
  then have "misses s g = []"
    using hits_misses [of s g] by simp
  then have "\<forall>i\<in>set [0..<4]. code_nth s i = code_nth g i"
    by (simp add: misses_def filter_empty_conv)
  then have "code_nth s 0 = code_nth g 0" "code_nth s 1 = code_nth g 1"
    "code_nth s 2 = code_nth g 2" "code_nth s 3 = code_nth g 3"
    by simp_all
  then show "s = g"
    by (cases s; cases g) (simp add: code_nth_def)
next
  assume "s = g"
  then show "length (hits s g) = 4" by (simp add: hits_def)
qed

text \<open>
  Claim C2: for every pair of codes, the black count of \<open>feedbackFor\<close> is at most 4, and
  it is 4 exactly when the secret and the guess are the same code.
\<close>

theorem feedbackFor_black_exact:
  "black (feedbackFor secret g) \<le> 4 \<and> (black (feedbackFor secret g) = 4 \<longleftrightarrow> secret = g)"
proof -
  have "length (hits secret g) \<le> 4" using hits_misses [of secret g] by simp
  moreover have "int (length (hits secret g)) = 4 \<longleftrightarrow> length (hits secret g) = 4" by linarith
  ultimately show ?thesis by (simp add: feedbackFor_black hits_all)
qed

text \<open>
  Claim C3: \<open>feedbackFor\<close> is symmetric in the secret and the guess, in both fields.
\<close>

theorem feedbackFor_symmetric: "feedbackFor a b = feedbackFor b a"
proof -
  have "black (feedbackFor a b) = black (feedbackFor b a)"
    by (simp add: feedbackFor_black hits_commute)
  moreover have "white (feedbackFor a b) = white (feedbackFor b a)"
    by (simp add: feedbackFor_white misses_commute [of b a] common_commute)
  ultimately show ?thesis by simp
qed

text \<open>
  Claim C10: every feedback that \<open>feedbackFor\<close> produces passes \<open>isValidFeedback\<close>:
  both counts are non-negative and together at most 4.
\<close>

theorem feedbackFor_valid: "isValidFeedback (feedbackFor secret g)"
proof -
  let ?w = "white (feedbackFor secret g)"
  have "?w \<le> int (length (misses secret g))" "0 \<le> ?w"
    using common_le [of _ "map (code_nth g) (misses secret g)"]
    by (simp_all add: feedbackFor_white common_nonneg)
  then show ?thesis
    using hits_misses [of secret g] by (simp add: isValidFeedback_def feedbackFor_black)
qed

section \<open>The code space\<close>

lemma upt_step: "n < 7 \<Longrightarrow> [n..<7] = n # [n + 1..<7]"
  by (simp add: upt_conv_Cons)

lemma loop_d_eq: "d \<le> 7 \<Longrightarrow> loop_d a b c d out = out @ map (Code a b c) [d..<7]"
proof (induction a b c d out rule: loop_d.induct)
  case (1 a b c d out)
  show ?case
  proof (cases "d \<le> 6")
    case True
    then have "loop_d a b c d out = loop_d a b c (d + 1) (out @ [Code a b c d])"
      by (simp add: loop_d.simps [of a b c d])
    also have "\<dots> = (out @ [Code a b c d]) @ map (Code a b c) [d + 1..<7]"
      using True by (intro "1.IH") simp_all
    finally show ?thesis using True by (simp add: upt_step)
  next
    case False
    with "1.prems" have "d = 7" by simp
    then show ?thesis by (simp add: loop_d.simps [of a b c 7])
  qed
qed

lemma loop_c_eq: "c \<le> 7 \<Longrightarrow> loop_c a b c out = out @ concat (map (codes_c a b) [c..<7])"
proof (induction a b c out rule: loop_c.induct)
  case (1 a b c out)
  show ?case
  proof (cases "c \<le> 6")
    case True
    then have "loop_c a b c out = loop_c a b (c + 1) (loop_d a b c 1 out)"
      by (simp add: loop_c.simps [of a b c])
    also have "\<dots> = loop_d a b c 1 out @ concat (map (codes_c a b) [c + 1..<7])"
      using True by (intro "1.IH") simp_all
    also have "loop_d a b c 1 out = out @ codes_c a b c"
      by (simp add: loop_d_eq codes_c_def)
    finally show ?thesis using True by (simp add: upt_step)
  next
    case False
    with "1.prems" have "c = 7" by simp
    then show ?thesis by (simp add: loop_c.simps [of a b 7])
  qed
qed

lemma loop_b_eq: "b \<le> 7 \<Longrightarrow> loop_b a b out = out @ concat (map (codes_b a) [b..<7])"
proof (induction a b out rule: loop_b.induct)
  case (1 a b out)
  show ?case
  proof (cases "b \<le> 6")
    case True
    then have "loop_b a b out = loop_b a (b + 1) (loop_c a b 1 out)"
      by (simp add: loop_b.simps [of a b])
    also have "\<dots> = loop_c a b 1 out @ concat (map (codes_b a) [b + 1..<7])"
      using True by (intro "1.IH") simp_all
    also have "loop_c a b 1 out = out @ codes_b a b"
      by (simp add: loop_c_eq codes_b_def)
    finally show ?thesis using True by (simp add: upt_step)
  next
    case False
    with "1.prems" have "b = 7" by simp
    then show ?thesis by (simp add: loop_b.simps [of a 7])
  qed
qed

lemma loop_a_eq: "a \<le> 7 \<Longrightarrow> loop_a a out = out @ concat (map codes_a [a..<7])"
proof (induction a out rule: loop_a.induct)
  case (1 a out)
  show ?case
  proof (cases "a \<le> 6")
    case True
    then have "loop_a a out = loop_a (a + 1) (loop_b a 1 out)"
      by (simp add: loop_a.simps [of a])
    also have "\<dots> = loop_b a 1 out @ concat (map codes_a [a + 1..<7])"
      using True by (intro "1.IH") simp_all
    also have "loop_b a 1 out = out @ codes_a a"
      by (simp add: loop_b_eq codes_a_def)
    finally show ?thesis using True by (simp add: upt_step)
  next
    case False
    with "1.prems" have "a = 7" by simp
    then show ?thesis by (simp add: loop_a.simps [of 7])
  qed
qed

lemma generateAllCodes_eq: "generateAllCodes = concat (map codes_a [1..<7])"
  by (simp add: generateAllCodes_def loop_a_eq)

lemma sorted_wrt_concat_map:
  assumes "sorted_wrt Q xs"
    and "\<And>x. x \<in> set xs \<Longrightarrow> sorted_wrt P (f x)"
    and "\<And>x y u v. Q x y \<Longrightarrow> u \<in> set (f x) \<Longrightarrow> v \<in> set (f y) \<Longrightarrow> P u v"
  shows "sorted_wrt P (concat (map f xs))"
  using assms by (induction xs) (auto simp: sorted_wrt_append)

lemma set_codes_c: "set (codes_c a b c) = {Code a b c d | d. valid_peg d}"
  by (auto simp: codes_c_def valid_peg_def)

lemma set_codes_b: "set (codes_b a b) = {Code a b c d | c d. valid_peg c \<and> valid_peg d}"
  by (auto simp: codes_b_def set_codes_c) (auto simp: valid_peg_def)

lemma set_codes_a: "set (codes_a a) = {Code a b c d | b c d. valid_peg b \<and> valid_peg c \<and> valid_peg d}"
  by (auto simp: codes_a_def set_codes_b) (auto simp: valid_peg_def)

lemma set_generateAllCodes: "set generateAllCodes = {c. valid_code c}"
proof -
  have "set generateAllCodes =
      {Code a b c d | a b c d. valid_peg a \<and> valid_peg b \<and> valid_peg c \<and> valid_peg d}"
    by (auto simp: generateAllCodes_eq set_codes_a) (auto simp: valid_peg_def)
  also have "\<dots> = {c. valid_code c}"
  proof -
    have "\<And>x. valid_code x \<Longrightarrow> \<exists>a b c d. x = Code a b c d \<and> valid_peg a \<and> valid_peg b \<and> valid_peg c \<and> valid_peg d"
      subgoal for x by (cases x) simp
      done
    then show ?thesis by auto
  qed
  finally show ?thesis .
qed

lemma sorted_codes_c: "sorted_wrt code_less (codes_c a b c)"
  unfolding codes_c_def sorted_wrt_map
  by (rule sorted_wrt_mono_rel [of _ "(<)"]) simp_all

lemma sorted_codes_b: "sorted_wrt code_less (codes_b a b)"
  unfolding codes_b_def
  by (rule sorted_wrt_concat_map [of "(<)"]) (auto simp: sorted_codes_c set_codes_c)

lemma sorted_codes_a: "sorted_wrt code_less (codes_a a)"
  unfolding codes_a_def
  by (rule sorted_wrt_concat_map [of "(<)"]) (auto simp: sorted_codes_b set_codes_b)

lemma sorted_generateAllCodes: "sorted_wrt code_less generateAllCodes"
  unfolding generateAllCodes_eq
  by (rule sorted_wrt_concat_map [of "(<)"]) (auto simp: sorted_codes_a set_codes_a)

lemma code_less_irrefl: "\<not> code_less c c"
  by (cases c) simp

lemma sorted_wrt_distinct: "sorted_wrt P xs \<Longrightarrow> (\<And>x. \<not> P x x) \<Longrightarrow> distinct xs"
  by (induction xs) auto

lemma length_codes_c: "length (codes_c a b c) = 6"
  by (simp add: codes_c_def)

lemma length_concat_const:
  "(\<And>x. length (f x) = k) \<Longrightarrow> length (concat (map f xs)) = length xs * k"
  by (induction xs) simp_all

lemma length_codes_b: "length (codes_b a b) = 36"
  by (simp add: codes_b_def length_concat_const [where k = 6] length_codes_c)

lemma length_codes_a: "length (codes_a a) = 216"
  by (simp add: codes_a_def length_concat_const [where k = 36] length_codes_b)

lemma length_generateAllCodes: "length generateAllCodes = 1296"
  by (simp add: generateAllCodes_eq length_concat_const [where k = 216] length_codes_a)

text \<open>
  Claim C8: \<open>generateAllCodes\<close>, and the constant \<open>ALL_CODES\<close> built from it, is the list
  of all 1296 codes over the pegs 1 to 6, without duplicates, in lexicographic order with
  the first position varying slowest. It takes no input and reads no state, so every call
  yields this same list.
\<close>

theorem generateAllCodes_complete:
  "length generateAllCodes = 1296 \<and> distinct generateAllCodes \<and>
   set generateAllCodes = {c. valid_code c} \<and> sorted_wrt code_less generateAllCodes \<and>
   ALL_CODES = generateAllCodes"
  using sorted_wrt_distinct [OF sorted_generateAllCodes code_less_irrefl]
  by (simp add: length_generateAllCodes set_generateAllCodes sorted_generateAllCodes ALL_CODES_def)

section \<open>The constraint filter\<close>

lemma filterRemaining_snoc:
  "filterRemaining (history @ [step]) U = filter (consistent step) (filterRemaining history U)"
  by (simp add: filterRemaining_def)

text \<open>
  Claim C4: a further step never brings a code back: what \<open>filterRemaining\<close> returns for
  a history extended by one step is a subset of what it returns for the history itself, for
  every universe.
\<close>

theorem filterRemaining_monotone:
  "set (filterRemaining (history @ [step]) U) \<subseteq> set (filterRemaining history U)"
  by (simp add: filterRemaining_snoc)

lemma set_filterRemaining:
  "set (filterRemaining steps U) = {c \<in> set U. \<forall>s \<in> set steps. consistent s c}"
  unfolding filterRemaining_def
  by (induction steps arbitrary: U) auto

lemma distinct_filterRemaining: "distinct U \<Longrightarrow> distinct (filterRemaining steps U)"
  unfolding filterRemaining_def
  by (induction steps arbitrary: U) auto

lemma set_ALL_CODES: "set ALL_CODES = {c. valid_code c}"
  by (simp add: ALL_CODES_def set_generateAllCodes)

text \<open>
  Claim C5: when every step of the history carries the feedback that scoring \<open>secret\<close>
  against its guess gives, \<open>secret\<close> is among the codes that \<open>filterRemaining\<close> returns
  from the full code space. The secret is a code of the game, with its pegs from 1 to 6.
\<close>

theorem filterRemaining_keeps_secret:
  "valid_code secret \<Longrightarrow> secret \<in> set (filterRemaining (scored secret guesses) ALL_CODES)"
  by (auto simp: set_filterRemaining set_ALL_CODES scored_def consistent_def)

theorem filterRemaining_keeps_secret_witness:
  "valid_code (Code 3 4 5 6) \<and>
   Code 3 4 5 6 \<in> set (filterRemaining (scored (Code 3 4 5 6) [Code 1 1 2 2, Code 3 3 4 5]) ALL_CODES)"
  using filterRemaining_keeps_secret [of "Code 3 4 5 6" "[Code 1 1 2 2, Code 3 3 4 5]"]
  by (simp add: valid_peg_def)

text \<open>
  Claim C7: with nothing remaining \<open>recommendNextGuess\<close> returns the fixed code 1122, the
  code that \<open>firstGuess\<close> returns, and with one code remaining it returns that code,
  whatever the list of guesses is.
\<close>

theorem recommendNextGuess_degenerate:
  "recommendNextGuess [] allGuesses = Code 1 1 2 2 \<and> firstGuess = Code 1 1 2 2 \<and>
   recommendNextGuess [c] allGuesses = c"
  by (simp add: recommendNextGuess_def firstGuess_def)

lemma upt_0_4: "[0..<4] = [0, 1, 2, 3]"
  by (simp add: upt_rec)

lemma pegs_nth: "map (code_nth s) [0..<4] = pegs s"
  by (cases s) (simp add: upt_0_4 code_nth_def)

lemma min_nat_zero_iff: "min (int a) (int b) = 0 \<longleftrightarrow> a = 0 \<or> b = 0"
  by (auto simp: min_def)

lemma common_zero_iff: "common xs ys = 0 \<longleftrightarrow> set xs \<inter> set ys = {}"
proof -
  have "common xs ys = 0 \<longleftrightarrow>
        (\<forall>p\<in>set xs \<union> set ys. min (int (count_list xs p)) (int (count_list ys p)) = 0)"
    unfolding common_def by (rule sum_nonneg_eq_0_iff) simp_all
  also have "\<dots> \<longleftrightarrow> (\<forall>p\<in>set xs \<union> set ys. p \<notin> set xs \<or> p \<notin> set ys)"
    by (simp add: min_nat_zero_iff count_list_0_iff)
  also have "\<dots> \<longleftrightarrow> set xs \<inter> set ys = {}"
    by blast
  finally show ?thesis .
qed

lemma feedbackFor_zero_iff:
  "feedbackFor s g = \<lparr>black = 0, white = 0\<rparr> \<longleftrightarrow> set (pegs s) \<inter> set (pegs g) = {}"
proof -
  have eq: "feedbackFor s g = \<lparr>black = 0, white = 0\<rparr> \<longleftrightarrow>
        black (feedbackFor s g) = 0 \<and> white (feedbackFor s g) = 0"
    by (cases "feedbackFor s g") auto
  show ?thesis
  proof (cases "hits s g = []")
    case True
    then have "misses s g = [0..<4]"
      by (simp add: hits_def misses_def filter_empty_conv)
    then show ?thesis
      by (simp add: eq feedbackFor_black feedbackFor_white True pegs_nth common_zero_iff)
  next
    case False
    then obtain i where i: "i < 4" "code_nth s i = code_nth g i"
      by (auto simp: hits_def filter_empty_conv)
    have "code_nth s i \<in> set (map (code_nth s) [0..<4])" "code_nth g i \<in> set (map (code_nth g) [0..<4])"
      using i(1) by simp_all
    then have "set (pegs s) \<inter> set (pegs g) \<noteq> {}"
      unfolding pegs_nth using i(2) by auto
    with False show ?thesis
      by (simp add: eq feedbackFor_black)
  qed
qed

lemma consistent_step_00: "consistent step_00 c \<longleftrightarrow> 1 \<notin> set (pegs c) \<and> 2 \<notin> set (pegs c)"
proof -
  have "consistent step_00 c \<longleftrightarrow> feedbackFor c (Code 1 1 2 2) = \<lparr>black = 0, white = 0\<rparr>"
    by (cases "feedbackFor c (Code 1 1 2 2)") (auto simp: consistent_def step_00_def)
  then show ?thesis by (auto simp: feedbackFor_zero_iff)
qed

lemma set_filter_step_00:
  "set (filterRemaining [step_00] ALL_CODES) = {c. valid_code c \<and> 1 \<notin> set (pegs c) \<and> 2 \<notin> set (pegs c)}"
  by (auto simp: set_filterRemaining set_ALL_CODES consistent_step_00)

lemma codes_without_1_2:
  "{c. valid_code c \<and> 1 \<notin> set (pegs c) \<and> 2 \<notin> set (pegs c)} =
   (\<lambda>(a, b, c, d). Code a b c d) ` ({3..6} \<times> {3..6} \<times> {3..6} \<times> {3..6})" (is "?L = ?R")
proof
  show "?L \<subseteq> ?R"
  proof
    fix x assume "x \<in> ?L"
    then show "x \<in> ?R"
      by (cases x) (force simp: valid_peg_def image_iff)
  qed
  show "?R \<subseteq> ?L"
    by (auto simp: valid_peg_def)
qed

lemma card_codes_without_1_2:
  "card {c. valid_code c \<and> 1 \<notin> set (pegs c) \<and> 2 \<notin> set (pegs c)} = 256"
proof -
  have "inj_on (\<lambda>(a, b, c, d). Code a b c d) ({3..6} \<times> {3..6} \<times> {3..6} \<times> {3..6})"
    by (auto simp: inj_on_def)
  then show ?thesis
    unfolding codes_without_1_2 by (simp add: card_image card_cartesian_product)
qed

text \<open>
  Claim C6: the secret 3456 scores no pin against the guess 1122, and filtering the full
  code space by the step (1122, no pin) leaves exactly the codes without the pegs 1 and 2,
  which are 256 codes.
\<close>

theorem first_step_scenario:
  "feedbackFor (Code 3 4 5 6) (Code 1 1 2 2) = \<lparr>black = 0, white = 0\<rparr> \<and>
   set (filterRemaining [\<lparr>guess = Code 1 1 2 2, feedback = \<lparr>black = 0, white = 0\<rparr>\<rparr>] ALL_CODES) =
     {c. valid_code c \<and> 1 \<notin> set (pegs c) \<and> 2 \<notin> set (pegs c)} \<and>
   distinct (filterRemaining [\<lparr>guess = Code 1 1 2 2, feedback = \<lparr>black = 0, white = 0\<rparr>\<rparr>] ALL_CODES) \<and>
   length (filterRemaining [\<lparr>guess = Code 1 1 2 2, feedback = \<lparr>black = 0, white = 0\<rparr>\<rparr>] ALL_CODES) = 256"
proof -
  let ?r = "filterRemaining [step_00] ALL_CODES"
  have d: "distinct ?r"
    using sorted_wrt_distinct [OF sorted_generateAllCodes code_less_irrefl]
    by (simp add: distinct_filterRemaining ALL_CODES_def)
  have "length ?r = card (set ?r)"
    using d by (simp add: distinct_card)
  then have l: "length ?r = 256"
    by (simp only: set_filter_step_00 card_codes_without_1_2)
  have f: "feedbackFor (Code 3 4 5 6) (Code 1 1 2 2) = \<lparr>black = 0, white = 0\<rparr>"
    by (simp add: feedbackFor_zero_iff)
  show ?thesis
    using d l f set_filter_step_00 by (simp add: step_00_def)
qed

section \<open>Parsing and formatting codes\<close>

lemma char_of_digits:
  "char_of (49 :: nat) = CHR ''1''" "char_of (50 :: nat) = CHR ''2''"
  "char_of (51 :: nat) = CHR ''3''" "char_of (52 :: nat) = CHR ''4''"
  "char_of (53 :: nat) = CHR ''5''" "char_of (54 :: nat) = CHR ''6''"
  by (simp_all add: char_of_def bit_Suc_0_iff)

lemma in_class_iff: "in_class c \<longleftrightarrow> c \<in> digits_1_6"
proof
  assume "in_class c"
  then have "(of_char c :: nat) \<in> {49, 50, 51, 52, 53, 54}"
    by (auto simp: in_class_def)
  then have "char_of (of_char c :: nat) \<in> char_of ` {49 :: nat, 50, 51, 52, 53, 54}"
    by (rule imageI)
  then show "c \<in> digits_1_6"
    by (simp add: digits_1_6_def char_of_digits)
next
  assume "c \<in> digits_1_6"
  then show "in_class c"
    by (auto simp: digits_1_6_def in_class_def)
qed

lemma match_class_all: "match_class n t = Some [] \<longleftrightarrow> length t = n \<and> set t \<subseteq> digits_1_6"
proof (induction n arbitrary: t)
  case 0
  show ?case by auto
next
  case (Suc n)
  show ?case by (cases t) (auto simp: Suc in_class_iff)
qed

lemma regex_test_iff: "regex_test t \<longleftrightarrow> length t = 4 \<and> set t \<subseteq> digits_1_6"
  by (simp add: regex_test_def match_class_all)

lemma Number_digit: "c \<in> digits_1_6 \<Longrightarrow> valid_peg (Number c) \<and> string_of_nat (Number c) = [c]"
  by (auto simp: digits_1_6_def Number_def valid_peg_def string_of_nat.simps digit_char_def
      char_of_digits)

lemma parse_Some:
  assumes "length t = 4" "set t \<subseteq> digits_1_6"
  shows "valid_code (Code (map Number t ! 0) (map Number t ! 1) (map Number t ! 2) (map Number t ! 3))
    \<and> codeToString (Code (map Number t ! 0) (map Number t ! 1) (map Number t ! 2) (map Number t ! 3)) = t"
proof -
  from assms(1) obtain w x y z where t: "t = [w, x, y, z]"
    by (auto simp: length_Suc_conv numeral_eq_Suc)
  with assms(2) show ?thesis
    by (simp add: codeToString_def Number_digit)
qed

lemma parseCodeString_cases:
  "parseCodeString s =
     (if length (trim s) = 4 \<and> set (trim s) \<subseteq> digits_1_6
      then Some (Code (map Number (trim s) ! 0) (map Number (trim s) ! 1)
                  (map Number (trim s) ! 2) (map Number (trim s) ! 3))
      else None)"
  by (simp add: parseCodeString_def regex_test_iff Let_def)

lemma peg_digit:
  assumes "valid_peg p"
  shows "string_of_nat p = [digit_char p]" "digit_char p \<in> digits_1_6"
    "\<not> is_space (digit_char p)" "Number (digit_char p) = p"
proof -
  from assms have "p \<in> {1, 2, 3, 4, 5, 6}"
    by (auto simp: valid_peg_def)
  then show "string_of_nat p = [digit_char p]" "digit_char p \<in> digits_1_6"
    "\<not> is_space (digit_char p)" "Number (digit_char p) = p"
    by (auto simp: string_of_nat.simps digit_char_def digits_1_6_def is_space_def Number_def
        char_of_digits)
qed

lemma trim_no_space:
  assumes "t \<noteq> []" "\<not> is_space (hd t)" "\<not> is_space (last t)"
  shows "trim t = t"
proof -
  have "dropWhile is_space t = t"
    using assms(1,2) by (cases t) simp_all
  moreover have "dropWhile is_space (rev t) = rev t"
    using assms(1,3) by (cases "rev t") (simp_all add: last_rev [symmetric] del: last_rev)
  ultimately show ?thesis by (simp add: trim_def)
qed

lemma parse_format:
  assumes "valid_code c"
  shows "parseCodeString (codeToString c) = Some c"
proof -
  obtain w x y z where c: "c = Code w x y z" by (cases c)
  with assms have v: "valid_peg w" "valid_peg x" "valid_peg y" "valid_peg z" by simp_all
  have s: "codeToString (Code w x y z) = [digit_char w, digit_char x, digit_char y, digit_char z]"
    by (simp add: codeToString_def peg_digit(1) v)
  have "trim (codeToString (Code w x y z)) = codeToString (Code w x y z)"
    unfolding s by (rule trim_no_space) (simp_all add: peg_digit(3) v)
  then show ?thesis
    unfolding c parseCodeString_cases by (simp add: s peg_digit v)
qed

text \<open>
  Claim C9: \<open>parseCodeString\<close> returns a code exactly when the trimmed input is four
  characters, each from 1 to 6, and that code is then a valid one whose string is the
  trimmed input; on every other string it returns the invalid result. Parsing the string of
  a code gives the code back.
\<close>

theorem parseCodeString_correct:
  "((\<exists>c. parseCodeString s = Some c \<and> valid_code c \<and> codeToString c = trim s) \<longleftrightarrow>
      length (trim s) = 4 \<and> set (trim s) \<subseteq> {CHR ''1'', CHR ''2'', CHR ''3'', CHR ''4'', CHR ''5'', CHR ''6''}) \<and>
   (parseCodeString s = None \<longleftrightarrow>
      \<not> (length (trim s) = 4 \<and> set (trim s) \<subseteq> {CHR ''1'', CHR ''2'', CHR ''3'', CHR ''4'', CHR ''5'', CHR ''6''})) \<and>
   (valid_code c \<longrightarrow> parseCodeString (codeToString c) = Some c)"
  using parse_Some [of "trim s"] parse_format [of c]
  by (auto simp: parseCodeString_cases digits_1_6_def)

theorem parseCodeString_correct_witness:
  "valid_code (Code 3 1 6 2) \<and>
   parseCodeString (codeToString (Code 3 1 6 2)) = Some (Code 3 1 6 2) \<and>
   parseCodeString ''31627'' = None"
proof -
  have v: "valid_code (Code 3 1 6 2)"
    by (simp add: valid_peg_def)
  have t: "trim ''31627'' = ''31627''"
    by (simp add: trim_def is_space_def)
  have "parseCodeString (codeToString (Code 3 1 6 2)) = Some (Code 3 1 6 2)"
    using parseCodeString_correct [of "''31627''" "Code 3 1 6 2"] v by blast
  moreover have "parseCodeString ''31627'' = None"
    using parseCodeString_correct [of "''31627''" "Code 3 1 6 2"] by (simp add: t)
  ultimately show ?thesis using v by simp
qed

section \<open>The guess recommender\<close>

lemma common_alt:
  "common xs ys = (\<Sum>p\<in>set ys. min (int (count_list xs p)) (int (count_list ys p)))"
  unfolding common_def
  by (rule sum.mono_neutral_right) (auto simp: count_list_0_iff)

lemma fb_1122:
  "black (feedbackFor (Code a b c d) (Code 1 1 2 2)) = 2 \<and>
   white (feedbackFor (Code a b c d) (Code 1 1 2 2)) = 2 \<longleftrightarrow>
     (a = 1 \<and> b = 2 \<and> c = 1 \<and> d = 2) \<or> (a = 1 \<and> b = 2 \<and> c = 2 \<and> d = 1) \<or>
     (a = 2 \<and> b = 1 \<and> c = 1 \<and> d = 2) \<or> (a = 2 \<and> b = 1 \<and> c = 2 \<and> d = 1)"
  unfolding feedbackFor_black feedbackFor_white common_alt
  by (cases "a = 1"; cases "b = 1"; cases "c = 2"; cases "d = 2")
    (simp_all add: hits_def misses_def code_nth_def upt_0_4)

lemma consistent_step_22:
  "consistent step_22 (Code a b c d) \<longleftrightarrow> Code a b c d \<in> set remaining_22"
  using fb_1122 [of a b c d]
  by (simp add: consistent_def step_22_def remaining_22_def)

lemma partitions_tally: "partitions_of remaining g = tally (keys_of remaining g) []"
  by (simp add: partitions_of_def tally_def keys_of_def fold_map comp_def)

lemma tally_head: "\<exists>v' m'. tally xs ((k, v) # m) = (k, v') # m' \<and> v \<le> v'"
proof (induction xs arbitrary: v m)
  case Nil
  show ?case by (simp add: tally_def)
next
  case (Cons x xs)
  have step: "tally (x # xs) ((k, v) # m) = tally xs (bump ((k, v) # m) x)"
    by (simp add: tally_def)
  show ?case
  proof (cases "k = x")
    case True
    then have "bump ((k, v) # m) x = (k, v + 1) # m"
      by (simp add: bump_def get_or_def)
    with Cons.IH [of "v + 1" m] show ?thesis
      unfolding step by fastforce
  next
    case False
    then have "bump ((k, v) # m) x = (k, v) # map_set m x (get_or ((k, v) # m) x 0 + 1)"
      by (simp add: bump_def)
    with Cons.IH [of v] show ?thesis
      unfolding step by fastforce
  qed
qed

lemma first_group:
  "\<exists>v vs. map snd (partitions_of (c # cs) g) = v # vs \<and> 1 \<le> v"
proof -
  obtain k ks where k: "keys_of (c # cs) g = k # ks"
    by (simp add: keys_of_def)
  have "tally (k # ks) [] = tally ks [(k, 1)]"
    by (simp add: tally_def bump_def get_or_def)
  with tally_head [of ks k 1 "[]"] show ?thesis
    unfolding partitions_tally k by fastforce
qed

lemma score_ge_iff: "score_ge w b \<longleftrightarrow> \<not> score_lt w b"
  by (cases b) auto

lemma consider_keep:
  assumes "bestScore st = Finite 1"
    and "\<not> (in_remaining (c # cs) g \<and> \<not> bestIsRemaining st)"
    and "\<not> (in_remaining (c # cs) g = bestIsRemaining st \<and>
            str_less (codeToString g) (codeToString (bestGuess st)))"
  shows "consider_guess (c # cs) g st = st"
proof -
  obtain v vs where v: "map snd (partitions_of (c # cs) g) = v # vs" "1 \<le> v"
    using first_group [of c cs g] by auto
  have w: "worst_scan (Finite 1) (v # vs) 0 = v"
    using v(2) by simp
  show ?thesis
    using assms(2,3) v(2)
    unfolding consider_guess_def Let_def v(1) assms(1) w in_remaining_def [symmetric]
    by auto
qed

lemma scan_ge2:
  "score_lt 1 best \<Longrightarrow> (\<exists>v\<in>set vs. 2 \<le> v) \<or> 2 \<le> w \<Longrightarrow> 2 \<le> worst_scan best vs w"
proof (induction vs arbitrary: w)
  case Nil
  then show ?case by simp
next
  case (Cons v vs)
  let ?w = "if v > w then v else w"
  show ?case
  proof (cases "score_ge ?w best")
    case True
    with Cons.prems(1) have "2 \<le> ?w" by (cases best) auto
    with True show ?thesis by (simp add: Let_def)
  next
    case False
    have "(\<exists>v\<in>set vs. 2 \<le> v) \<or> 2 \<le> ?w"
      using Cons.prems(2) by auto
    from Cons.IH [OF Cons.prems(1) this] False show ?thesis by (simp add: Let_def)
  qed
qed

lemma tally_entry: "k \<in> set xs \<Longrightarrow> (k, int (count_list xs k)) \<in> set (tally xs [])"
proof -
  assume "k \<in> set xs"
  then have "k \<in> fst ` set (tally xs [])" by (simp add: tally_keys)
  then obtain v where v: "(k, v) \<in> set (tally xs [])" by auto
  have "distinct (map fst (tally xs []))" by (simp add: tally_distinct)
  from get_or_entry [OF this v, of 0] have "v = int (count_list xs k)"
    by (simp add: get_or_tally get_or_Nil)
  with v show ?thesis by simp
qed

lemma count_shared:
  "c1 \<in> set xs \<Longrightarrow> c2 \<in> set xs \<Longrightarrow> c1 \<noteq> c2 \<Longrightarrow> f c1 = f c2 \<Longrightarrow>
     2 \<le> count_list (map f xs) (f c1)"
proof (induction xs)
  case Nil
  then show ?case by simp
next
  case (Cons x xs)
  have pos: "\<And>c. c \<in> set xs \<Longrightarrow> 1 \<le> count_list (map f xs) (f c)"
  proof -
    fix c assume "c \<in> set xs"
    then have "f c \<in> set (map f xs)" by simp
    then have "count_list (map f xs) (f c) \<noteq> 0" by (simp only: count_list_0_iff) simp
    then show "1 \<le> count_list (map f xs) (f c)" by simp
  qed
  show ?case
  proof (cases "x = c1 \<or> x = c2")
    case True
    then show ?thesis
      using Cons.prems pos [of c1] pos [of c2] by auto
  next
    case False
    with Cons show ?thesis by auto
  qed
qed

lemma shared_group:
  assumes "c1 \<in> set remaining" "c2 \<in> set remaining" "c1 \<noteq> c2"
    and "feedbackFor c1 g = feedbackFor c2 g"
  shows "\<exists>v\<in>set (map snd (partitions_of remaining g)). 2 \<le> v"
proof -
  let ?f = "\<lambda>secret. feedbackKey (feedbackFor secret g)"
  have "2 \<le> count_list (map ?f remaining) (?f c1)"
    using assms by (intro count_shared) simp_all
  moreover have "(?f c1, int (count_list (keys_of remaining g) (?f c1))) \<in> set (partitions_of remaining g)"
    unfolding partitions_tally using assms(1) by (intro tally_entry) (simp add: keys_of_def)
  ultimately show ?thesis
    by (force simp: keys_of_def)
qed

lemma consider_open:
  assumes "score_lt 1 (bestScore st)"
    and "c1 \<in> set remaining" "c2 \<in> set remaining" "c1 \<noteq> c2"
    and "feedbackFor c1 g = feedbackFor c2 g"
  shows "score_lt 1 (bestScore (consider_guess remaining g st))"
proof -
  have "\<exists>v\<in>set (map snd (partitions_of remaining g)). 2 \<le> v"
    using assms(2-5) by (rule shared_group)
  then have "2 \<le> worst_scan (bestScore st) (map snd (partitions_of remaining g)) 0"
    using assms(1) by (intro scan_ge2) simp_all
  then show ?thesis
    using assms(1) by (auto simp: consider_guess_def Let_def)
qed

lemma fold_max_ge: "w \<le> fold max vs (w :: int)"
proof (induction vs arbitrary: w)
  case Nil
  show ?case by simp
next
  case (Cons v vs)
  have "w \<le> max v w" by simp
  also have "\<dots> \<le> fold max vs (max v w)" by (rule Cons.IH)
  finally show ?case by simp
qed

lemma fold_max_mem: "v \<in> set vs \<Longrightarrow> v \<le> fold max vs (w :: int)"
proof (induction vs arbitrary: w)
  case Nil
  then show ?case by simp
next
  case (Cons x vs)
  show ?case
  proof (cases "v = x")
    case True
    have "v \<le> max x w" by (simp add: True)
    also have "\<dots> \<le> fold max vs (max x w)" by (rule fold_max_ge)
    finally show ?thesis by simp
  next
    case False
    with Cons.prems have "v \<in> set vs" by simp
    then show ?thesis by (simp add: Cons.IH)
  qed
qed

lemma unpruned_open:
  assumes "score_lt 1 (bestScore st)"
    and "c1 \<in> set remaining" "c2 \<in> set remaining" "c1 \<noteq> c2"
    and "feedbackFor c1 g = feedbackFor c2 g"
  shows "score_lt 1 (bestScore (consider_unpruned remaining g st))"
proof -
  obtain v where "v \<in> set (map snd (partitions_of remaining g))" "2 \<le> v"
    using shared_group [OF assms(2-5)] by blast
  then have "2 \<le> fold max (map snd (partitions_of remaining g)) 0"
    using fold_max_mem [of v "map snd (partitions_of remaining g)" 0] by simp
  then show ?thesis
    using assms(1) by (auto simp: consider_unpruned_def Let_def)
qed

lemma unpruned_keep:
  assumes "bestScore st = Finite 1"
    and "\<not> (in_remaining (c # cs) g \<and> \<not> bestIsRemaining st)"
    and "\<not> (in_remaining (c # cs) g = bestIsRemaining st \<and>
            str_less (codeToString g) (codeToString (bestGuess st)))"
  shows "consider_unpruned (c # cs) g st = st"
proof -
  obtain v vs where v: "map snd (partitions_of (c # cs) g) = v # vs" "1 \<le> v"
    using first_group [of c cs g] by auto
  have "v \<le> fold max (map snd (partitions_of (c # cs) g)) 0"
    by (rule fold_max_mem) (simp add: v(1))
  with v(2) have w: "1 \<le> fold max (map snd (partitions_of (c # cs) g)) 0"
    by simp
  show ?thesis
    using assms(2,3) w
    unfolding consider_unpruned_def Let_def assms(1) in_remaining_def [symmetric]
    by auto
qed

lemma of_char_digit: "valid_peg p \<Longrightarrow> of_char (digit_char p) = 48 + p"
  by (simp add: digit_char_def valid_peg_def)

lemma codeToString_valid:
  "valid_code (Code a b c d) \<Longrightarrow>
     codeToString (Code a b c d) = [digit_char a, digit_char b, digit_char c, digit_char d]"
  by (simp add: codeToString_def peg_digit(1))

lemma str_less_code:
  assumes "valid_code g" "valid_code h"
  shows "str_less (codeToString g) (codeToString h) = code_less g h"
proof -
  obtain a b c d where g: "g = Code a b c d" by (cases g)
  obtain a' b' c' d' where h: "h = Code a' b' c' d'" by (cases h)
  show ?thesis
    using assms unfolding g h
    by (simp add: codeToString_valid of_char_digit)
qed

lemma digit_char_inj: "valid_peg p \<Longrightarrow> valid_peg q \<Longrightarrow> digit_char p = digit_char q \<longleftrightarrow> p = q"
proof
  assume v: "valid_peg p" "valid_peg q" and "digit_char p = digit_char q"
  then have "(of_char (digit_char p) :: nat) = of_char (digit_char q)" by simp
  with v show "p = q" by (simp add: of_char_digit)
qed simp

lemma codeToString_inj:
  assumes "valid_code g" "valid_code h"
  shows "codeToString g = codeToString h \<longleftrightarrow> g = h"
proof -
  obtain a b c d where g: "g = Code a b c d" by (cases g)
  obtain a' b' c' d' where h: "h = Code a' b' c' d'" by (cases h)
  show ?thesis
    using assms unfolding g h
    by (simp add: codeToString_valid digit_char_inj)
qed

lemma in_remaining_iff:
  assumes "valid_code g" "\<forall>c\<in>set remaining. valid_code c"
  shows "in_remaining remaining g \<longleftrightarrow> g \<in> set remaining"
  using assms by (auto simp: in_remaining_def codeToString_inj)

lemma code_less_asym: "code_less x y \<Longrightarrow> \<not> code_less y x"
  by (cases x; cases y) auto

lemma sorted_split:
  "sorted_wrt code_less xs \<Longrightarrow> p \<in> set xs \<Longrightarrow>
     xs = filter (\<lambda>y. code_less y p) xs @ p # filter (code_less p) xs"
proof (induction xs)
  case Nil
  then show ?case by simp
next
  case (Cons x xs)
  show ?case
  proof (cases "p = x")
    case True
    from Cons.prems(1) have above: "\<forall>y\<in>set xs. code_less p y"
      by (simp add: True)
    then have "filter (\<lambda>y. code_less y p) xs = []" "filter (code_less p) xs = xs"
      by (auto simp: filter_empty_conv filter_id_conv dest: code_less_asym)
    then show ?thesis by (simp add: True code_less_irrefl)
  next
    case False
    with Cons.prems have p: "p \<in> set xs" "code_less x p" by auto
    then have "\<not> code_less p x" by (auto dest: code_less_asym)
    with Cons.IH p Cons.prems(1) show ?thesis by simp
  qed
qed

lemma fold_split:
  assumes "sorted_wrt code_less xs" "p \<in> set xs"
  shows "fold f xs st =
         fold f (filter (code_less p) xs) (f p (fold f (filter (\<lambda>y. code_less y p) xs) st))"
proof -
  have "fold f xs st = fold f (filter (\<lambda>y. code_less y p) xs @ p # filter (code_less p) xs) st"
    using sorted_split [OF assms] by simp
  then show ?thesis by simp
qed

lemma valid_remaining_22: "\<forall>c\<in>set remaining_22. valid_code c"
  by (simp add: remaining_22_def valid_peg_def)

lemma same_feedback_11:
  "feedbackFor (Code 1 2 1 2) (Code 1 1 c d) = feedbackFor (Code 2 1 1 2) (Code 1 1 c d)"
proof -
  have "black (feedbackFor (Code 1 2 1 2) (Code 1 1 c d)) = black (feedbackFor (Code 2 1 1 2) (Code 1 1 c d))"
    by (simp add: feedbackFor_black hits_def code_nth_def upt_0_4)
  moreover have "white (feedbackFor (Code 1 2 1 2) (Code 1 1 c d)) = white (feedbackFor (Code 2 1 1 2) (Code 1 1 c d))"
    by (simp add: feedbackFor_white misses_def code_nth_def upt_0_4)
  ultimately show ?thesis by (intro Feedback.equality) simp_all
qed

lemma same_feedback_1211:
  "feedbackFor (Code 1 2 1 2) (Code 1 2 1 1) = feedbackFor (Code 1 2 2 1) (Code 1 2 1 1)"
  by code_simp

lemma same_feedback_1212:
  "feedbackFor (Code 1 2 2 1) (Code 1 2 1 2) = feedbackFor (Code 2 1 1 2) (Code 1 2 1 2)"
  by code_simp

lemma before_1213:
  assumes "valid_code g" "code_less g (Code 1 2 1 3)"
  shows "\<exists>c1 c2. c1 \<in> set remaining_22 \<and> c2 \<in> set remaining_22 \<and> c1 \<noteq> c2 \<and>
           feedbackFor c1 g = feedbackFor c2 g"
proof -
  obtain a b c d where g: "g = Code a b c d" by (cases g)
  from assms have "a = 1 \<and> (b = 1 \<or> (b = 2 \<and> c = 1 \<and> (d = 1 \<or> d = 2)))"
    unfolding g by (auto simp: valid_peg_def)
  then consider "g = Code 1 1 c d" | "g = Code 1 2 1 1" | "g = Code 1 2 1 2"
    unfolding g by auto
  then show ?thesis
  proof cases
    case 1
    have "Code 1 2 1 2 \<in> set remaining_22 \<and> Code 2 1 1 2 \<in> set remaining_22 \<and>
          Code 1 2 1 2 \<noteq> Code 2 1 1 2 \<and>
          feedbackFor (Code 1 2 1 2) g = feedbackFor (Code 2 1 1 2) g"
      by (simp del: One_nat_def add: 1 same_feedback_11 remaining_22_def)
    then show ?thesis by blast
  next
    case 2
    have "Code 1 2 1 2 \<in> set remaining_22 \<and> Code 1 2 2 1 \<in> set remaining_22 \<and>
          Code 1 2 1 2 \<noteq> Code 1 2 2 1 \<and>
          feedbackFor (Code 1 2 1 2) g = feedbackFor (Code 1 2 2 1) g"
      by (simp del: One_nat_def add: 2 same_feedback_1211 remaining_22_def)
    then show ?thesis by blast
  next
    case 3
    have "Code 1 2 2 1 \<in> set remaining_22 \<and> Code 2 1 1 2 \<in> set remaining_22 \<and>
          Code 1 2 2 1 \<noteq> Code 2 1 1 2 \<and>
          feedbackFor (Code 1 2 2 1) g = feedbackFor (Code 2 1 1 2) g"
      by (simp del: One_nat_def add: 3 same_feedback_1212 remaining_22_def)
    then show ?thesis by blast
  qed
qed

lemma at_1213:
  assumes "score_lt 1 (bestScore st)"
  shows "consider_guess remaining_22 (Code 1 2 1 3) st = st_1213"
proof -
  have p: "map snd (partitions_of remaining_22 (Code 1 2 1 3)) = [1, 1, 1, 1]"
    by code_simp
  have w: "worst_scan (bestScore st) [1, 1, 1, 1] 0 = 1"
    using assms by (simp add: score_ge_iff)
  have i: "\<not> codeToString (Code 1 2 1 3) \<in> set (map codeToString remaining_22)"
    by code_simp
  show ?thesis
    using assms i by (simp del: One_nat_def add: consider_guess_def p w st_1213_def)
qed

lemma at_1221: "consider_guess remaining_22 (Code 1 2 2 1) st_1213 = st_1213"
  by code_simp

lemma at_2112: "consider_guess remaining_22 (Code 2 1 1 2) st_1213 = st_1213"
  by code_simp

lemma at_2121: "consider_guess remaining_22 (Code 2 1 2 1) st_1213 = st_2121"
  by code_simp

lemma sorted_unique:
  "sorted_wrt code_less xs \<Longrightarrow> sorted_wrt code_less ys \<Longrightarrow> set xs = set ys \<Longrightarrow> xs = ys"
proof (induction xs arbitrary: ys)
  case Nil
  then show ?case by simp
next
  case (Cons x xs)
  from Cons.prems(3) obtain y ys' where ys: "ys = y # ys'"
    by (cases ys) auto
  have x: "\<forall>z\<in>set xs. code_less x z" and y: "\<forall>z\<in>set ys'. code_less y z"
    using Cons.prems(1,2) by (simp_all add: ys)
  have "x = y"
  proof (rule ccontr)
    assume "x \<noteq> y"
    with Cons.prems(3) have "x \<in> set ys'" "y \<in> set xs"
      unfolding ys by auto
    with x y have "code_less x y" "code_less y x" by auto
    then show False by (auto dest: code_less_asym)
  qed
  moreover have "x \<notin> set xs" "y \<notin> set ys'"
    using x y by (auto simp: code_less_irrefl)
  ultimately have "set xs = set ys'"
    using Cons.prems(3) unfolding ys by auto
  with Cons.IH [of ys'] Cons.prems(1,2) \<open>x = y\<close> show ?case
    by (simp add: ys)
qed

lemma filter_step_22: "filterRemaining [step_22] ALL_CODES = remaining_22"
proof (rule sorted_unique)
  show "sorted_wrt code_less (filterRemaining [step_22] ALL_CODES)"
    by (simp add: filterRemaining_def ALL_CODES_def sorted_wrt_filter sorted_generateAllCodes)
  show "sorted_wrt code_less remaining_22"
    by (simp add: remaining_22_def)
  show "set (filterRemaining [step_22] ALL_CODES) = set remaining_22"
  proof (intro set_eqI iffI)
    fix x assume x: "x \<in> set (filterRemaining [step_22] ALL_CODES)"
    obtain a b c d where "x = Code a b c d" by (cases x)
    with x show "x \<in> set remaining_22"
      by (simp add: set_filterRemaining consistent_step_22)
  next
    fix x assume x: "x \<in> set remaining_22"
    with valid_remaining_22 have v: "valid_code x" by blast
    obtain a b c d where "x = Code a b c d" by (cases x)
    with x v show "x \<in> set (filterRemaining [step_22] ALL_CODES)"
      by (simp add: set_filterRemaining set_ALL_CODES consistent_step_22)
  qed
qed

lemma fold_fix: "\<forall>g\<in>set gs. f g s = s \<Longrightarrow> fold f gs s = s"
  by (induction gs) simp_all

lemma fold_inv:
  assumes "I st" and "\<And>g st. g \<in> set gs \<Longrightarrow> I st \<Longrightarrow> I (f g st)"
  shows "I (fold f gs st)"
  using assms by (induction gs arbitrary: st) simp_all

lemma scan_phases:
  fixes f :: "Code \<Rightarrow> Best \<Rightarrow> Best"
  assumes before: "\<And>g st. valid_code g \<Longrightarrow> code_less g (Code 1 2 1 3) \<Longrightarrow>
        score_lt 1 (bestScore st) \<Longrightarrow> score_lt 1 (bestScore (f g st))"
    and at_1213: "\<And>st. score_lt 1 (bestScore st) \<Longrightarrow> f (Code 1 2 1 3) st = st_1213"
    and between: "\<And>g. valid_code g \<Longrightarrow> g \<notin> set remaining_22 \<Longrightarrow>
        code_less (Code 1 2 1 3) g \<Longrightarrow> f g st_1213 = st_1213"
    and at_1221: "f (Code 1 2 2 1) st_1213 = st_1213"
    and at_2112: "f (Code 2 1 1 2) st_1213 = st_1213"
    and at_2121: "f (Code 2 1 2 1) st_1213 = s"
    and after: "\<And>g. valid_code g \<Longrightarrow> code_less (Code 2 1 2 1) g \<Longrightarrow> f g s = s"
  shows "fold f generateAllCodes st_init = s"
proof -
  let ?A = generateAllCodes
  define U1 where "U1 = filter (code_less (Code 1 2 1 3)) ?A"
  define U2 where "U2 = filter (code_less (Code 1 2 2 1)) U1"
  define U3 where "U3 = filter (code_less (Code 2 1 1 2)) U2"
  define U4 where "U4 = filter (code_less (Code 2 1 2 1)) U3"
  have sA: "sorted_wrt code_less ?A" by (rule sorted_generateAllCodes)
  have s1: "sorted_wrt code_less U1" unfolding U1_def using sA by (rule sorted_wrt_filter)
  have s2: "sorted_wrt code_less U2" unfolding U2_def using s1 by (rule sorted_wrt_filter)
  have s3: "sorted_wrt code_less U3" unfolding U3_def using s2 by (rule sorted_wrt_filter)
  have m0: "Code 1 2 1 3 \<in> set ?A"
    by (simp add: set_generateAllCodes valid_peg_def)
  have m1: "Code 1 2 2 1 \<in> set U1"
    by (simp add: U1_def set_generateAllCodes valid_peg_def)
  have m2: "Code 2 1 1 2 \<in> set U2"
    by (simp add: U2_def U1_def set_generateAllCodes valid_peg_def)
  have m3: "Code 2 1 2 1 \<in> set U3"
    by (simp add: U3_def U2_def U1_def set_generateAllCodes valid_peg_def)

  have "score_lt 1 (bestScore (fold f (filter (\<lambda>y. code_less y (Code 1 2 1 3)) ?A) st_init))"
  proof (rule fold_inv [where I = "\<lambda>st. score_lt 1 (bestScore st)"])
    show "score_lt 1 (bestScore st_init)"
      by (simp add: st_init_def)
  next
    fix g and st :: Best
    assume "g \<in> set (filter (\<lambda>y. code_less y (Code 1 2 1 3)) ?A)"
    then have "valid_code g" "code_less g (Code 1 2 1 3)"
      by (simp_all add: set_generateAllCodes)
    moreover assume "score_lt 1 (bestScore st)"
    ultimately show "score_lt 1 (bestScore (f g st))"
      by (rule before)
  qed
  then have p0: "f (Code 1 2 1 3) (fold f (filter (\<lambda>y. code_less y (Code 1 2 1 3)) ?A) st_init) = st_1213"
    by (rule at_1213)

  have "\<forall>g\<in>set (filter (\<lambda>y. code_less y (Code 1 2 2 1)) U1).
          valid_code g \<and> g \<notin> set remaining_22 \<and> code_less (Code 1 2 1 3) g"
    by (auto simp: U1_def set_generateAllCodes remaining_22_def)
  then have p1: "fold f (filter (\<lambda>y. code_less y (Code 1 2 2 1)) U1) st_1213 = st_1213"
    by (intro fold_fix ballI between) simp_all

  have "\<forall>g\<in>set (filter (\<lambda>y. code_less y (Code 2 1 1 2)) U2).
          valid_code g \<and> g \<notin> set remaining_22 \<and> code_less (Code 1 2 1 3) g"
    by (auto simp: U2_def U1_def set_generateAllCodes remaining_22_def)
  then have p2: "fold f (filter (\<lambda>y. code_less y (Code 2 1 1 2)) U2) st_1213 = st_1213"
    by (intro fold_fix ballI between) simp_all

  have "\<forall>g\<in>set (filter (\<lambda>y. code_less y (Code 2 1 2 1)) U3).
          valid_code g \<and> g \<notin> set remaining_22 \<and> code_less (Code 1 2 1 3) g"
    by (auto simp: U3_def U2_def U1_def set_generateAllCodes remaining_22_def)
  then have p3: "fold f (filter (\<lambda>y. code_less y (Code 2 1 2 1)) U3) st_1213 = st_1213"
    by (intro fold_fix ballI between) simp_all

  have "\<forall>g\<in>set U4. valid_code g \<and> code_less (Code 2 1 2 1) g"
    by (auto simp: U4_def U3_def U2_def U1_def set_generateAllCodes)
  then have p4: "fold f U4 s = s"
    by (intro fold_fix ballI after) simp_all

  have "fold f ?A st_init = fold f U1 st_1213"
    unfolding U1_def by (simp only: fold_split [OF sA m0] p0)
  also have "\<dots> = fold f U2 st_1213"
    unfolding U2_def by (simp only: fold_split [OF s1 m1] p1 at_1221)
  also have "\<dots> = fold f U3 st_1213"
    unfolding U3_def by (simp only: fold_split [OF s2 m2] p2 at_2112)
  also have "\<dots> = fold f U4 s"
    unfolding U4_def by (simp only: fold_split [OF s3 m3] p3 at_2121)
  also have "\<dots> = s" by (rule p4)
  finally show ?thesis .
qed

lemma keep_after_1213:
  assumes "valid_code g" "g \<notin> set remaining_22" "code_less (Code 1 2 1 3) g"
  shows "consider_guess remaining_22 g st_1213 = st_1213"
    and "consider_unpruned remaining_22 g st_1213 = st_1213"
proof -
  have v: "valid_code (Code 1 2 1 3)" by (simp add: valid_peg_def)
  have "\<not> code_less g (Code 1 2 1 3)"
    using assms(3) by (auto dest: code_less_asym)
  then have c: "\<not> in_remaining remaining_22 g"
    "\<not> str_less (codeToString g) (codeToString (Code 1 2 1 3))"
    using assms(1,2) v
    by (simp_all del: One_nat_def add: in_remaining_iff valid_remaining_22 str_less_code)
  have "consider_guess (Code 1 2 1 2 # tl remaining_22) g st_1213 = st_1213"
    using c by (intro consider_keep) (simp_all add: st_1213_def remaining_22_def)
  then show "consider_guess remaining_22 g st_1213 = st_1213"
    by (simp add: remaining_22_def)
  have "consider_unpruned (Code 1 2 1 2 # tl remaining_22) g st_1213 = st_1213"
    using c by (intro unpruned_keep) (simp_all add: st_1213_def remaining_22_def)
  then show "consider_unpruned remaining_22 g st_1213 = st_1213"
    by (simp add: remaining_22_def)
qed

lemma keep_after_2121:
  assumes "valid_code g" "code_less (Code 2 1 2 1) g"
  shows "consider_guess remaining_22 g st_2121 = st_2121"
proof -
  have "g \<notin> set remaining_22"
    using assms(2) by (auto simp: remaining_22_def)
  then have c: "\<not> in_remaining remaining_22 g"
    using assms(1) by (simp add: in_remaining_iff valid_remaining_22)
  have "consider_guess (Code 1 2 1 2 # tl remaining_22) g st_2121 = st_2121"
    using c by (intro consider_keep) (simp_all add: st_2121_def remaining_22_def)
  then show ?thesis
    by (simp add: remaining_22_def)
qed

lemma unpruned_at_1213:
  assumes "score_lt 1 (bestScore st)"
  shows "consider_unpruned remaining_22 (Code 1 2 1 3) st = st_1213"
proof -
  have p: "map snd (partitions_of remaining_22 (Code 1 2 1 3)) = [1, 1, 1, 1]"
    by code_simp
  have i: "\<not> codeToString (Code 1 2 1 3) \<in> set (map codeToString remaining_22)"
    by code_simp
  show ?thesis
    using assms i by (simp del: One_nat_def add: consider_unpruned_def p st_1213_def)
qed

lemma unpruned_at_members:
  "consider_unpruned remaining_22 (Code 1 2 2 1) st_1213 = st_1213"
  "consider_unpruned remaining_22 (Code 2 1 1 2) st_1213 = st_1213"
  "consider_unpruned remaining_22 (Code 2 1 2 1) st_1213 = st_1213"
  by code_simp+

lemma pruned_scan: "fold (consider_guess remaining_22) generateAllCodes st_init = st_2121"
proof (rule scan_phases)
  fix g and st :: Best
  assume "valid_code g" "code_less g (Code 1 2 1 3)" and st: "score_lt 1 (bestScore st)"
  then obtain c1 c2 where "c1 \<in> set remaining_22" "c2 \<in> set remaining_22" "c1 \<noteq> c2"
    "feedbackFor c1 g = feedbackFor c2 g"
    using before_1213 by blast
  with st show "score_lt 1 (bestScore (consider_guess remaining_22 g st))"
    by (rule consider_open)
qed (blast intro: at_1213 at_1221 at_2112 at_2121 keep_after_1213 keep_after_2121)+

lemma unpruned_scan: "fold (consider_unpruned remaining_22) generateAllCodes st_init = st_1213"
proof (rule scan_phases)
  fix g and st :: Best
  assume "valid_code g" "code_less g (Code 1 2 1 3)" and st: "score_lt 1 (bestScore st)"
  then obtain c1 c2 where "c1 \<in> set remaining_22" "c2 \<in> set remaining_22" "c1 \<noteq> c2"
    "feedbackFor c1 g = feedbackFor c2 g"
    using before_1213 by blast
  with st show "score_lt 1 (bestScore (consider_unpruned remaining_22 g st))"
    by (rule unpruned_open)
next
  fix g assume g: "valid_code g" "code_less (Code 2 1 2 1) g"
  from g(2) have "g \<notin> set remaining_22"
    by (auto simp: remaining_22_def)
  moreover from g(2) have "code_less (Code 1 2 1 3) g"
    by (cases g) auto
  ultimately show "consider_unpruned remaining_22 g st_1213 = st_1213"
    using g(1) by (blast intro: keep_after_1213)
qed (blast intro: unpruned_at_1213 unpruned_at_members keep_after_1213)+

lemma recommend_on_ALL_CODES:
  "recommendNextGuess remaining_22 ALL_CODES = Code 2 1 2 1"
  "recommend_unpruned remaining_22 ALL_CODES = Code 1 2 1 3"
proof -
  have l: "length remaining_22 = 4" by (simp add: remaining_22_def)
  show "recommendNextGuess remaining_22 ALL_CODES = Code 2 1 2 1"
    using l pruned_scan
    by (simp add: recommendNextGuess_def ALL_CODES_def st_init_def st_2121_def)
  show "recommend_unpruned remaining_22 ALL_CODES = Code 1 2 1 3"
    using l unpruned_scan
    by (simp add: recommend_unpruned_def ALL_CODES_def st_init_def st_1213_def)
qed

text \<open>
  Claim C1 says that the guess returned attains the least worst-case group size over
  \<open>allGuesses\<close> and that the early exit of the scan never changes the guess returned.
  The code does otherwise. After the first guess 1122 has been answered with two black and
  two white pins, the codes 1212, 1221, 2112 and 2121 remain. Over the full code space
  \<open>recommendNextGuess\<close> then returns 2121, which leaves a group of two, although the
  guess 1213 of the code space splits the remaining codes into four groups of one. Once
  1213 has set the best score to one, the scan of every later guess stops at its first
  group; for 2121 that group has size one, which is taken for a tie, and the tie-break
  prefers 2121 as a member of the remaining codes. The unpruned evaluation returns 1213.
  The same happens with only the guesses 1213 and 2121 to choose from.
\<close>

theorem recommendNextGuess_pruning_changes_guess:
  "filterRemaining [\<lparr>guess = Code 1 1 2 2, feedback = \<lparr>black = 2, white = 2\<rparr>\<rparr>] ALL_CODES =
     remaining_22 \<and>
   recommendNextGuess remaining_22 ALL_CODES = Code 2 1 2 1 \<and>
   recommend_unpruned remaining_22 ALL_CODES = Code 1 2 1 3 \<and>
   worst_spec remaining_22 (Code 2 1 2 1) = 2 \<and>
   Code 1 2 1 3 \<in> set ALL_CODES \<and>
   worst_spec remaining_22 (Code 1 2 1 3) = 1 \<and>
   recommendNextGuess remaining_22 [Code 1 2 1 3, Code 2 1 2 1] = Code 2 1 2 1 \<and>
   recommend_unpruned remaining_22 [Code 1 2 1 3, Code 2 1 2 1] = Code 1 2 1 3"
proof -
  have "recommendNextGuess remaining_22 [Code 1 2 1 3, Code 2 1 2 1] = Code 2 1 2 1"
    by code_simp
  moreover have "recommend_unpruned remaining_22 [Code 1 2 1 3, Code 2 1 2 1] = Code 1 2 1 3"
    by code_simp
  moreover have "worst_spec remaining_22 (Code 2 1 2 1) = 2"
    by code_simp
  moreover have "worst_spec remaining_22 (Code 1 2 1 3) = 1"
    by code_simp
  moreover have "Code 1 2 1 3 \<in> set ALL_CODES"
    by (simp add: set_ALL_CODES valid_peg_def)
  ultimately show ?thesis
    using filter_step_22 recommend_on_ALL_CODES by (simp add: step_22_def)
qed

end
